theory Spec2Isabelle
  imports Main "HOL-Library.Word" "HOL-Library.Sublist"
begin

section \<open>The live gateway: services/gateway/main.py\<close>

text \<open>
  The gateway runs three kinds of coroutine on one asyncio event loop: \<open>sub_task\<close>
  (forwards pub/sub messages into \<open>queue\<close>), \<open>batch_task\<close> (drains \<open>queue\<close> every
  \<open>WS_BATCH_MS\<close> milliseconds and sends one frame to every member of \<open>clients\<close>) and
  one \<open>live\<close> handler per websocket. Control changes hands only at an \<open>await\<close>; the
  model is a state record and one function per stretch of code that runs between two
  suspension points.
\<close>

subsection \<open>Values\<close>

text \<open>
  The values found in a message dict of the pub/sub listener (\<open>decode_responses=True\<close>):
  \<open>None\<close>, a subscription count, or text.
\<close>

datatype pyval = PNone | PInt int | PStr string

text \<open>A message dict, as an association list (\<open>msg.get(k)\<close> is \<open>map_of msg k\<close>).\<close>

type_synonym msg = "(string \<times> pyval) list"

text \<open>
  What \<open>json.loads\<close> returns and \<open>json.dumps\<close> accepts. A Python float is kept as its
  IEEE-754 binary64 bit pattern (the gateway never computes with one).
\<close>

datatype json =
    JNull
  | JBool bool
  | JInt int
  | JFloat "64 word"
  | JStr string
  | JArr "json list"
  | JObj "(string \<times> json) list"

text \<open>A websocket handle is an object identity.\<close>

type_synonym ws = nat

text \<open>The exceptions that occur in the modelled code.\<close>

datatype error =
  QueueEmpty | JSONDecodeError | TypeError | KeyError | ConnectionError | RuntimeError

subsection \<open>asyncio.Queue(maxsize=1000)\<close>

text \<open>
  The queue is the list of its items, oldest first. \<open>full\<close>, \<open>get_nowait\<close> and \<open>put\<close>
  follow asyncio: \<open>get_nowait\<close> raises \<open>QueueEmpty\<close> on an empty queue; \<open>put\<close> is the
  coroutine \<open>while self.full(): await putter; self.put_nowait(item)\<close>, so on a full
  queue it suspends the caller and the item is not yet in the queue.
\<close>

definition maxsize :: nat where
  "maxsize = 1000"

definition full :: "'a list \<Rightarrow> bool" where
  "full q = (maxsize \<le> length q)"

definition get_nowait :: "'a list \<Rightarrow> error + ('a \<times> 'a list)" where
  "get_nowait q = (case q of [] \<Rightarrow> Inl QueueEmpty | x # q' \<Rightarrow> Inr (x, q'))"

datatype 'a await = Done 'a | Suspended

definition put :: "'a list \<Rightarrow> 'a \<Rightarrow> 'a list await" where
  "put q x = (if full q then Suspended else Done (q @ [x]))"

subsection \<open>The set of clients\<close>

text \<open>
  \<open>clients\<close> is a Python set of handles: it is kept as the duplicate-free list of its
  members in the order in which a \<open>for ws in clients\<close> that starts now visits them. Where
  a new member falls in that order depends on its hash; \<open>add\<close> puts it last, and nothing
  below depends on the order.
\<close>

definition add :: "ws \<Rightarrow> ws list \<Rightarrow> ws list" where
  "add w cs = (if w \<in> set cs then cs else cs @ [w])"

definition discard :: "ws \<Rightarrow> ws list \<Rightarrow> ws list" where
  "discard w cs = removeAll w cs"

subsection \<open>State\<close>

text \<open>
  \<open>inbox\<close> holds what \<open>ps.listen()\<close> will produce next: a message dict, or the
  connection error the listener raises when the transport to the channel is lost.
  \<open>wire\<close> records every \<open>send_text\<close> call that has ended: the handle, the frame, and
  whether the call returned (\<open>True\<close>) or raised (\<open>False\<close>).

  \<open>batch_task\<close> is \<open>Running\<close> while it sleeps between two ticks. While it awaits a
  \<open>send_text\<close> it is \<open>Sending payload w ahead seen dead\<close>, the locals of its loop:
  the frame, the handle \<open>w\<close> being sent to, the members the iterator of
  \<open>for ws in clients\<close> has still ahead, \<open>clients\<close> as the iterator last found it, and the
  list \<open>dead\<close>.
\<close>

datatype chan_event = Message msg | ConnLost

datatype sub_state = Listening | Putting pyval | SubDead error

datatype task_state =
    Running
  | Sending string ws "ws list" "ws list" "ws list"
  | Dead error

record gateway =
  queue :: "pyval list"
  clients :: "ws list"
  inbox :: "chan_event list"
  sub_task :: sub_state
  batch_task :: task_state
  wire :: "(ws \<times> string \<times> bool) list"

definition startup :: gateway where
  "startup = \<lparr>queue = [], clients = [], inbox = [], sub_task = Listening,
     batch_task = Running, wire = []\<rparr>"

subsection \<open>sub_task\<close>

text \<open>
  One resumption of \<open>sub_task\<close>: either it retries the \<open>put\<close> it is suspended in, or
  it takes the next event of the listener. An exception ends the task (nothing in
  \<open>sub_task\<close> catches one).
\<close>

definition sub_step :: "gateway \<Rightarrow> gateway" where
  "sub_step st =
     (case sub_task st of
        SubDead e \<Rightarrow> st
      | Putting d \<Rightarrow>
          (case put (queue st) d of
             Suspended \<Rightarrow> st
           | Done q' \<Rightarrow> st\<lparr>queue := q', sub_task := Listening\<rparr>)
      | Listening \<Rightarrow>
          (case inbox st of
             [] \<Rightarrow> st
           | ConnLost # rest \<Rightarrow> st\<lparr>inbox := rest, sub_task := SubDead ConnectionError\<rparr>
           | Message m # rest \<Rightarrow>
               if map_of m ''type'' = Some (PStr ''message'') then
                 (case map_of m ''data'' of
                    None \<Rightarrow> st\<lparr>inbox := rest, sub_task := SubDead KeyError\<rparr>
                  | Some d \<Rightarrow>
                      (case put (queue st) d of
                         Suspended \<Rightarrow> st\<lparr>inbox := rest, sub_task := Putting d\<rparr>
                       | Done q' \<Rightarrow> st\<lparr>queue := q', inbox := rest\<rparr>))
               else st\<lparr>inbox := rest\<rparr>))"

subsection \<open>batch_task\<close>

text \<open>
  \<open>json.loads\<close> and \<open>json.dumps\<close> belong to the standard library; the model takes the
  decoder and the encoder of text as parameters \<open>loads\<close> (\<open>None\<close> where \<open>json.loads\<close>
  raises \<open>JSONDecodeError\<close>) and \<open>dumps\<close>. \<open>json.loads\<close> raises \<open>TypeError\<close> on an
  argument that is not text.
\<close>

definition json_loads :: "(string \<Rightarrow> json option) \<Rightarrow> pyval \<Rightarrow> error + json" where
  "json_loads loads x =
     (case x of
        PStr s \<Rightarrow> (case loads s of None \<Rightarrow> Inl JSONDecodeError | Some j \<Rightarrow> Inr j)
      | _ \<Rightarrow> Inl TypeError)"

text \<open>
  The inner \<open>while True: batch.append(json.loads(queue.get_nowait()))\<close>. It has no
  \<open>break\<close>: it ends with an exception, returned with the batch and the queue as they
  are at that moment.
\<close>

function drain_loop ::
  "(string \<Rightarrow> json option) \<Rightarrow> pyval list \<Rightarrow> json list \<Rightarrow> error \<times> json list \<times> pyval list" where
  "drain_loop loads q batch =
     (case get_nowait q of
        Inl e \<Rightarrow> (e, batch, q)
      | Inr (x, q') \<Rightarrow>
          (case json_loads loads x of
             Inl e \<Rightarrow> (e, batch, q')
           | Inr j \<Rightarrow> drain_loop loads q' (batch @ [j])))"
  by pat_completeness auto
termination
  by (relation "measure (\<lambda>(loads, q, batch). length q)")
     (auto simp: get_nowait_def split: list.splits)

text \<open>The \<open>for ws in dead: clients.discard(ws)\<close> loop.\<close>

fun discard_loop :: "ws list \<Rightarrow> ws list \<Rightarrow> ws list" where
  "discard_loop [] cs = cs"
| "discard_loop (w # dead) cs = discard_loop dead (discard w cs)"

text \<open>
  The \<open>for ws in clients\<close> loop goes on with the members \<open>todo\<close> its iterator has ahead:
  it awaits the \<open>send_text\<close> to the first of them, or, when there is none, it runs the
  loop over \<open>dead\<close> and \<open>batch_task\<close> sleeps again.
\<close>

definition next_send :: "string \<Rightarrow> ws list \<Rightarrow> ws list \<Rightarrow> gateway \<Rightarrow> gateway" where
  "next_send payload todo dead st =
     (case todo of
        [] \<Rightarrow> st\<lparr>clients := discard_loop dead (clients st), batch_task := Running\<rparr>
      | w # rest \<Rightarrow> st\<lparr>batch_task := Sending payload w rest (clients st) dead\<rparr>)"

text \<open>
  \<open>batch_task\<close> from the return of \<open>asyncio.sleep\<close> to its next \<open>await\<close>: the first
  \<open>send_text\<close>, or the next sleep when nothing is sent. Only \<open>QueueEmpty\<close> is caught
  around the inner loop; any other exception leaves \<open>batch_task\<close>.
\<close>

definition batch_wake ::
  "(string \<Rightarrow> json option) \<Rightarrow> (json \<Rightarrow> string) \<Rightarrow> gateway \<Rightarrow> gateway" where
  "batch_wake loads dumps st =
     (case drain_loop loads (queue st) [] of
        (e, batch, q') \<Rightarrow>
          if e \<noteq> QueueEmpty then st\<lparr>queue := q', batch_task := Dead e\<rparr>
          else if batch = [] \<or> clients st = [] then st\<lparr>queue := q'\<rparr>
          else
            next_send (dumps (JObj [(''type'', JStr ''tls''), (''items'', JArr batch)]))
              (clients st) [] (st\<lparr>queue := q'\<rparr>))"

text \<open>
  \<open>batch_task\<close> from the end of the awaited \<open>send_text\<close> to its next \<open>await\<close>. \<open>ok\<close>
  tells whether the call returned or raised; the bare \<open>except:\<close> catches what it raises
  and appends the handle to \<open>dead\<close>. Then the \<open>for\<close> asks the iterator of the set for
  the next member. Other tasks have run while the send was awaited, and \<open>clients\<close> is
  the set itself, not a copy: when its size is no longer the size the iterator
  started with, the iterator raises \<open>RuntimeError\<close> (set changed size during iteration).
  That happens in the \<open>for\<close>, outside the \<open>try\<close>, so it leaves \<open>batch_task\<close>: the
  members still ahead are not sent to and \<open>dead\<close> is not discarded. When the set was
  changed and has its old size, which members the iterator still finds depends on the
  layout of the hash table: they are taken from \<open>layout\<close>, which the schedule gives.
\<close>

definition batch_sent :: "bool \<Rightarrow> ws list \<Rightarrow> gateway \<Rightarrow> gateway" where
  "batch_sent ok layout st =
     (case batch_task st of
        Sending payload w todo seen dead \<Rightarrow>
          (let st' = st\<lparr>wire := wire st @ [(w, payload, ok)]\<rparr>;
               dead' = (if ok then dead else dead @ [w])
           in if length (clients st) \<noteq> length seen then st'\<lparr>batch_task := Dead RuntimeError\<rparr>
              else if clients st = seen then next_send payload todo dead' st'
              else next_send payload (filter (\<lambda>v. v \<in> set (clients st)) layout) dead' st')
      | _ \<Rightarrow> st)"

subsection \<open>live\<close>

text \<open>
  \<open>live\<close> adds the accepted handle to \<open>clients\<close> and discards it when \<open>receive_text\<close>
  raises \<open>WebSocketDisconnect\<close>.
\<close>

definition live_accept :: "ws \<Rightarrow> gateway \<Rightarrow> gateway" where
  "live_accept w st = st\<lparr>clients := add w (clients st)\<rparr>"

definition live_disconnect :: "ws \<Rightarrow> gateway \<Rightarrow> gateway" where
  "live_disconnect w st = st\<lparr>clients := discard w (clients st)\<rparr>"

subsection \<open>The event loop\<close>

text \<open>
  What can happen next: the channel has a new event for the listener, \<open>sub_task\<close> is
  resumed, the sleep of \<open>batch_task\<close> is over, the \<open>send_text\<close> that \<open>batch_task\<close> awaits
  ends, a client connects, a client disconnects. A task is resumed only from the
  \<open>await\<close> it is suspended in, and a finished task never.
\<close>

datatype action =
    Publish chan_event
  | SubStep
  | Tick
  | Sent bool "ws list"
  | Accept ws
  | Closed ws

definition step ::
  "(string \<Rightarrow> json option) \<Rightarrow> (json \<Rightarrow> string) \<Rightarrow> action \<Rightarrow> gateway \<Rightarrow> gateway" where
  "step loads dumps a st =
     (case a of
        Publish ev \<Rightarrow> st\<lparr>inbox := inbox st @ [ev]\<rparr>
      | SubStep \<Rightarrow> sub_step st
      | Tick \<Rightarrow>
          (case batch_task st of
             Running \<Rightarrow> batch_wake loads dumps st
           | _ \<Rightarrow> st)
      | Sent ok layout \<Rightarrow> batch_sent ok layout st
      | Accept w \<Rightarrow> live_accept w st
      | Closed w \<Rightarrow> live_disconnect w st)"

fun run ::
  "(string \<Rightarrow> json option) \<Rightarrow> (json \<Rightarrow> string) \<Rightarrow> action list \<Rightarrow> gateway \<Rightarrow> gateway" where
  "run loads dumps [] st = st"
| "run loads dumps (a # as) st = run loads dumps as (step loads dumps a st)"

subsection \<open>A whole iteration of batch_task\<close>

text \<open>
  The schedule of a broadcast to the handles \<open>cs\<close>: while the send to \<open>w\<close> is awaited
  the other tasks do \<open>during w\<close>, then the send ends, raising when \<open>fails w\<close>.
  \<open>batch_tick\<close> is one iteration of the outer \<open>while True\<close> during which no other task
  runs.
\<close>

definition sends :: "(ws \<Rightarrow> bool) \<Rightarrow> (ws \<Rightarrow> action list) \<Rightarrow> ws list \<Rightarrow> action list" where
  "sends fails during cs = concat (map (\<lambda>w. during w @ [Sent (\<not> fails w) []]) cs)"

definition nothing :: "ws \<Rightarrow> action list" where
  "nothing w = []"

definition batch_tick ::
  "(string \<Rightarrow> json option) \<Rightarrow> (json \<Rightarrow> string) \<Rightarrow> (ws \<Rightarrow> bool) \<Rightarrow> gateway \<Rightarrow> gateway" where
  "batch_tick loads dumps fails st =
     run loads dumps (sends fails nothing (clients st)) (batch_wake loads dumps st)"

text \<open>Whether \<open>batch_task\<close> is awaiting a \<open>send_text\<close>.\<close>

definition sending :: "gateway \<Rightarrow> bool" where
  "sending st = (case batch_task st of Sending payload w todo seen dead \<Rightarrow> True | _ \<Rightarrow> False)"

text \<open>The actions of \<open>sub_task\<close> and of the channel: they leave \<open>clients\<close> alone.\<close>

fun forwarding :: "action \<Rightarrow> bool" where
  "forwarding (Publish ev) = True"
| "forwarding SubStep = True"
| "forwarding a = False"

subsection \<open>Observations on a schedule\<close>

text \<open>The events the channel handed to the listener in the course of a schedule.\<close>

fun published :: "action list \<Rightarrow> chan_event list" where
  "published [] = []"
| "published (Publish ev # as) = ev # published as"
| "published (a # as) = published as"

text \<open>
  The payload of a channel event: the \<open>data\<close> of a message dict whose \<open>type\<close> is
  \<open>message\<close>, which is what a PUBLISH on the subscribed topic produces.
\<close>

definition payload_of :: "chan_event \<Rightarrow> pyval option" where
  "payload_of ev =
     (case ev of
        Message m \<Rightarrow> if map_of m ''type'' = Some (PStr ''message'') then map_of m ''data'' else None
      | ConnLost \<Rightarrow> None)"

text \<open>
  The payloads on their way to a batch, in arrival order: those in the queue, the one
  held by a suspended \<open>put\<close>, and those of the events the listener has not handed over
  yet.
\<close>

definition pending :: "gateway \<Rightarrow> pyval list" where
  "pending st =
     queue st @ (case sub_task st of Putting d \<Rightarrow> [d] | _ \<Rightarrow> [])
       @ List.map_filter payload_of (inbox st)"

subsection \<open>The scenario of the specification\<close>

text \<open>
  Two event payloads as a producer publishes them, a text that is not JSON, and the
  values of \<open>json.loads\<close> and \<open>json.dumps\<close> on them: \<open>scenario_loads\<close> decodes the two
  payloads and rejects every other text, as \<open>json.loads\<close> rejects \<open>not json\<close>;
  \<open>scenario_dumps\<close> gives the text of the two frames the scenario sends (and the empty
  text for any other value: the scenario encodes no other).
\<close>

definition ev_a_text :: string where
  \<open>ev_a_text = ''{"domain":"a.com","ip":"9.9.9.9","lat":1,"lng":2,"ts":1000}''\<close>

definition ev_b_text :: string where
  \<open>ev_b_text = ''{"domain":"b.com","ip":"8.8.8.8","lat":3,"lng":4,"ts":1001}''\<close>

definition not_json :: string where
  "not_json = ''not json''"

definition ev_a :: json where
  "ev_a = JObj [(''domain'', JStr ''a.com''), (''ip'', JStr ''9.9.9.9''), (''lat'', JInt 1),
     (''lng'', JInt 2), (''ts'', JInt 1000)]"

definition ev_b :: json where
  "ev_b = JObj [(''domain'', JStr ''b.com''), (''ip'', JStr ''8.8.8.8''), (''lat'', JInt 3),
     (''lng'', JInt 4), (''ts'', JInt 1001)]"

definition scenario_loads :: "string \<Rightarrow> json option" where
  "scenario_loads = map_of [(ev_a_text, ev_a), (ev_b_text, ev_b)]"

definition frame_a_text :: string where
  \<open>frame_a_text = ''{"type": "tls", "items": [{"domain": "a.com", "ip": "9.9.9.9", "lat": 1, "lng": 2, "ts": 1000}]}''\<close>

definition frame_ab_text :: string where
  \<open>frame_ab_text = ''{"type": "tls", "items": [{"domain": "a.com", "ip": "9.9.9.9", "lat": 1, "lng": 2, "ts": 1000}, {"domain": "b.com", "ip": "8.8.8.8", "lat": 3, "lng": 4, "ts": 1001}]}''\<close>

definition scenario_dumps :: "json \<Rightarrow> string" where
  "scenario_dumps j =
     (if j = JObj [(''type'', JStr ''tls''), (''items'', JArr [ev_a, ev_b])] then frame_ab_text
      else if j = JObj [(''type'', JStr ''tls''), (''items'', JArr [ev_a])] then frame_a_text
      else [])"

text \<open>The message dicts of the listener: two published events and the subscription reply.\<close>

definition msg_a :: msg where
  "msg_a = [(''type'', PStr ''message''), (''pattern'', PNone),
     (''channel'', PStr ''events.tls''), (''data'', PStr ev_a_text)]"

definition msg_b :: msg where
  "msg_b = [(''type'', PStr ''message''), (''pattern'', PNone),
     (''channel'', PStr ''events.tls''), (''data'', PStr ev_b_text)]"

definition msg_subscribed :: msg where
  "msg_subscribed = [(''type'', PStr ''subscribe''), (''pattern'', PNone),
     (''channel'', PStr ''events.tls''), (''data'', PInt 1)]"

text \<open>Send outcomes of a cycle: no handle fails, or handle 2 does.\<close>

definition no_failure :: "ws \<Rightarrow> bool" where
  "no_failure w = False"

definition second_fails :: "ws \<Rightarrow> bool" where
  "second_fails w = (w = 2)"

text \<open>Gateways with two and three clients, and one whose queue is at capacity.\<close>

definition two_clients :: gateway where
  "two_clients = startup\<lparr>clients := [1, 2]\<rparr>"

definition three_clients :: gateway where
  "three_clients = startup\<lparr>clients := [1, 2, 3]\<rparr>"

text \<open>While the send to handle 1 is awaited, \<open>sub_task\<close> forwards the next event.\<close>

definition forward_during_first :: "ws \<Rightarrow> action list" where
  "forward_during_first w = (if w = 1 then [Publish (Message msg_b), SubStep] else [])"

definition at_capacity :: gateway where
  "at_capacity = startup\<lparr>queue := replicate 1000 (PStr ev_a_text), inbox := [Message msg_b]\<rparr>"

section \<open>Properties\<close>

subsection \<open>The loops of batch_task\<close>

lemma drain_loop_Nil: "drain_loop loads [] batch = (QueueEmpty, batch, [])"
  by (simp add: get_nowait_def)

lemma drain_loop_Cons:
  "drain_loop loads (x # q) batch =
     (case json_loads loads x of
        Inl e \<Rightarrow> (e, batch, q)
      | Inr j \<Rightarrow> drain_loop loads q (batch @ [j]))"
  by (simp add: get_nowait_def)

declare drain_loop.simps [simp del]

lemma json_loads_not_QueueEmpty: "json_loads loads x \<noteq> Inl QueueEmpty"
  by (simp add: json_loads_def split: pyval.splits option.splits)

text \<open>Every payload decodes: the loop ends on the empty queue with all the records.\<close>

lemma drain_loop_all_decode:
  "map (json_loads loads) q = map Inr js \<Longrightarrow>
   drain_loop loads q batch = (QueueEmpty, batch @ js, [])"
proof (induction q arbitrary: js batch)
  case Nil
  then show ?case by (simp add: drain_loop_Nil)
next
  case (Cons x q)
  then obtain j js' where js: "js = j # js'" "json_loads loads x = Inr j"
    "map (json_loads loads) q = map Inr js'"
    by (cases js) auto
  with Cons.IH [of js' "batch @ [j]"] show ?case
    by (simp add: drain_loop_Cons)
qed

text \<open>The loop ends at the first payload that does not decode.\<close>

lemma drain_loop_first_failure:
  "map (json_loads loads) good = map Inr js \<Longrightarrow> json_loads loads x = Inl e \<Longrightarrow>
   drain_loop loads (good @ x # rest) batch = (e, batch @ js, rest)"
proof (induction good arbitrary: js batch)
  case Nil
  then show ?case by (simp add: drain_loop_Cons)
next
  case (Cons y good)
  then obtain j js' where js: "js = j # js'" "json_loads loads y = Inr j"
    "map (json_loads loads) good = map Inr js'"
    by (cases js) auto
  with Cons.IH [of js' "batch @ [j]"] Cons.prems(2) show ?case
    by (simp add: drain_loop_Cons)
qed

text \<open>What the loop leaves in the queue is a suffix of what it found.\<close>

lemma drain_loop_suffix: "suffix (snd (snd (drain_loop loads q batch))) q"
proof (induction q arbitrary: batch)
  case Nil
  then show ?case by (simp add: drain_loop_Nil)
next
  case (Cons x q)
  show ?case
  proof (cases "json_loads loads x")
    case (Inl e)
    then show ?thesis by (simp add: drain_loop_Cons suffix_Cons)
  next
    case (Inr j)
    with Cons.IH [of "batch @ [j]"] show ?thesis
      by (simp add: drain_loop_Cons suffix_Cons)
  qed
qed

lemma discard_eq: "discard w cs = filter (\<lambda>v. v \<noteq> w) cs"
  by (induction cs) (auto simp: discard_def)

lemma discard_loop_eq: "discard_loop dead cs = filter (\<lambda>w. w \<notin> set dead) cs"
proof (induction dead arbitrary: cs)
  case Nil
  then show ?case by simp
next
  case (Cons w dead)
  from Cons.IH [of "discard w cs"] show ?case
    by (auto simp: discard_eq intro: filter_cong)
qed

lemma discard_loop_failed:
  "discard_loop (filter fails cs) cs = filter (\<lambda>w. \<not> fails w) cs"
  by (auto simp: discard_loop_eq intro: filter_cong)

text \<open>The scenario's decoder on the scenario's texts.\<close>

lemma scenario_loads_a: "json_loads scenario_loads (PStr ev_a_text) = Inr ev_a"
  by (simp add: json_loads_def scenario_loads_def ev_a_text_def ev_b_text_def)

lemma scenario_loads_b: "json_loads scenario_loads (PStr ev_b_text) = Inr ev_b"
  by (simp add: json_loads_def scenario_loads_def ev_a_text_def ev_b_text_def)

lemma scenario_loads_not_json: "json_loads scenario_loads (PStr not_json) = Inl JSONDecodeError"
  by (simp add: json_loads_def scenario_loads_def ev_a_text_def ev_b_text_def not_json_def)

lemma scenario_dumps_ab:
  "scenario_dumps (JObj [(''type'', JStr ''tls''), (''items'', JArr [ev_a, ev_b])]) = frame_ab_text"
  by (simp add: scenario_dumps_def)

lemma scenario_dumps_a:
  "scenario_dumps (JObj [(''type'', JStr ''tls''), (''items'', JArr [ev_a])]) = frame_a_text"
  by (simp add: scenario_dumps_def)


lemma run_append: "run loads dumps (xs @ ys) st = run loads dumps ys (run loads dumps xs st)"
  by (induction xs arbitrary: st) simp_all

text \<open>The first stretch of an iteration, by the way its inner loop ended.\<close>

lemma batch_wake_raise:
  "drain_loop loads (queue st) [] = (e, batch, q') \<Longrightarrow> e \<noteq> QueueEmpty \<Longrightarrow>
   batch_wake loads dumps st = st\<lparr>queue := q', batch_task := Dead e\<rparr>"
  by (simp add: batch_wake_def)

lemma batch_wake_skip:
  "drain_loop loads (queue st) [] = (QueueEmpty, batch, q') \<Longrightarrow> batch = [] \<or> clients st = [] \<Longrightarrow>
   batch_wake loads dumps st = st\<lparr>queue := q'\<rparr>"
  by (auto simp: batch_wake_def)

lemma batch_wake_send:
  "drain_loop loads (queue st) [] = (QueueEmpty, batch, q') \<Longrightarrow> batch \<noteq> [] \<Longrightarrow>
   clients st = w # rest \<Longrightarrow>
   batch_wake loads dumps st =
     st\<lparr>queue := q',
        batch_task :=
          Sending (dumps (JObj [(''type'', JStr ''tls''), (''items'', JArr batch)])) w rest (w # rest) []\<rparr>"
  by (simp add: batch_wake_def next_send_def)

lemma batch_wake_fields:
  "queue (batch_wake loads dumps st) = snd (snd (drain_loop loads (queue st) []))"
  "sub_task (batch_wake loads dumps st) = sub_task st"
  "inbox (batch_wake loads dumps st) = inbox st"
  "wire (batch_wake loads dumps st) = wire st"
  by (simp_all add: batch_wake_def next_send_def split: prod.splits list.splits)

lemma batch_sent_fields:
  "queue (batch_sent ok layout st) = queue st"
  "sub_task (batch_sent ok layout st) = sub_task st"
  "inbox (batch_sent ok layout st) = inbox st"
  by (simp_all add: batch_sent_def next_send_def Let_def split: task_state.splits list.splits)

lemma batch_sent_idle:
  "batch_task st = Running \<Longrightarrow> batch_sent ok layout st = st"
  "batch_task st = Dead e \<Longrightarrow> batch_sent ok layout st = st"
  by (simp_all add: batch_sent_def)

text \<open>What \<open>sub_task\<close> and the channel do leaves the broadcast as it is.\<close>

lemma forwarding_step:
  "forwarding a \<Longrightarrow>
   clients (step loads dumps a st) = clients st \<and> wire (step loads dumps a st) = wire st
   \<and> batch_task (step loads dumps a st) = batch_task st"
  by (cases a)
     (simp_all add: step_def sub_step_def put_def
        split: sub_state.splits list.splits chan_event.splits option.splits)

lemma forwarding_run:
  "\<forall>a \<in> set as. forwarding a \<Longrightarrow>
   clients (run loads dumps as st) = clients st \<and> wire (run loads dumps as st) = wire st
   \<and> batch_task (run loads dumps as st) = batch_task st"
  by (induction as arbitrary: st) (simp_all add: forwarding_step)

text \<open>
  A broadcast during which no other task changes \<open>clients\<close>: every handle ahead is
  sent to, whichever sends raise, and afterwards the handles whose send raised are
  discarded.
\<close>

lemma broadcast_undisturbed:
  assumes "batch_task st = Sending p w rest (clients st) d"
    and "\<forall>v \<in> set (w # rest). \<forall>a \<in> set (during v). forwarding a"
  shows "wire (run loads dumps (sends fails during (w # rest)) st) =
           wire st @ map (\<lambda>v. (v, p, \<not> fails v)) (w # rest)
       \<and> batch_task (run loads dumps (sends fails during (w # rest)) st) = Running
       \<and> clients (run loads dumps (sends fails during (w # rest)) st) =
           discard_loop (d @ filter fails (w # rest)) (clients st)"
  using assms
proof (induction rest arbitrary: st w d)
  case Nil
  let ?s1 = "run loads dumps (during w) st"
  from Nil.prems(2) have f: "\<forall>a \<in> set (during w). forwarding a" by simp
  from forwarding_run [OF f, of loads dumps st] Nil.prems(1)
  have s1: "clients ?s1 = clients st" "wire ?s1 = wire st"
    "batch_task ?s1 = Sending p w [] (clients st) d"
    by simp_all
  then show ?case
    by (simp add: sends_def run_append step_def batch_sent_def next_send_def)
next
  case (Cons w' rest)
  let ?s1 = "run loads dumps (during w) st"
  let ?s2 = "step loads dumps (Sent (\<not> fails w) []) ?s1"
  let ?d = "if fails w then d @ [w] else d"
  from Cons.prems(2) have f: "\<forall>a \<in> set (during w). forwarding a"
    and f': "\<forall>v \<in> set (w' # rest). \<forall>a \<in> set (during v). forwarding a"
    by simp_all
  from forwarding_run [OF f, of loads dumps st] Cons.prems(1)
  have s1: "clients ?s1 = clients st" "wire ?s1 = wire st"
    "batch_task ?s1 = Sending p w (w' # rest) (clients st) d"
    by simp_all
  then have s2: "clients ?s2 = clients st" "wire ?s2 = wire st @ [(w, p, \<not> fails w)]"
    "batch_task ?s2 = Sending p w' rest (clients ?s2) ?d"
    by (simp_all add: step_def batch_sent_def next_send_def)
  have r: "run loads dumps (sends fails during (w # w' # rest)) st =
      run loads dumps (sends fails during (w' # rest)) ?s2"
    by (simp add: sends_def run_append)
  from Cons.IH [OF s2(3) f'] s2(1,2) show ?case
    unfolding r by auto
qed

lemma sent_run_fields:
  "queue (run loads dumps (sends fails nothing cs) st) = queue st
   \<and> sub_task (run loads dumps (sends fails nothing cs) st) = sub_task st
   \<and> inbox (run loads dumps (sends fails nothing cs) st) = inbox st"
  by (induction cs arbitrary: st)
     (simp_all add: sends_def nothing_def step_def batch_sent_fields)

lemma idle_sends:
  "batch_task st = Running \<or> (\<exists>e. batch_task st = Dead e) \<Longrightarrow>
   run loads dumps (sends fails nothing cs) st = st"
  by (induction cs arbitrary: st)
     (auto simp: sends_def nothing_def step_def batch_sent_idle)

text \<open>One iteration of \<open>batch_task\<close> during which no other task runs.\<close>

lemma batch_tick_raise:
  "drain_loop loads (queue st) [] = (e, batch, q') \<Longrightarrow> e \<noteq> QueueEmpty \<Longrightarrow>
   batch_tick loads dumps fails st = st\<lparr>queue := q', batch_task := Dead e\<rparr>"
  by (simp add: batch_tick_def batch_wake_raise idle_sends)

lemma batch_tick_skip:
  "batch_task st = Running \<Longrightarrow>
   drain_loop loads (queue st) [] = (QueueEmpty, batch, q') \<Longrightarrow> batch = [] \<or> clients st = [] \<Longrightarrow>
   batch_tick loads dumps fails st = st\<lparr>queue := q'\<rparr>"
  by (simp add: batch_tick_def batch_wake_skip idle_sends)

lemma batch_tick_send:
  assumes "batch_task st = Running"
    and "drain_loop loads (queue st) [] = (QueueEmpty, batch, q')" and "batch \<noteq> []"
  shows "batch_tick loads dumps fails st =
     st\<lparr>queue := q', clients := filter (\<lambda>w. \<not> fails w) (clients st),
        wire := wire st @
          map (\<lambda>w. (w, dumps (JObj [(''type'', JStr ''tls''), (''items'', JArr batch)]), \<not> fails w))
            (clients st)\<rparr>"
proof (cases "clients st")
  case Nil
  with batch_tick_skip [OF assms(1,2), of dumps fails] show ?thesis by simp
next
  case (Cons w rest)
  let ?p = "dumps (JObj [(''type'', JStr ''tls''), (''items'', JArr batch)])"
  let ?s = "batch_wake loads dumps st"
  let ?r = "run loads dumps (sends fails nothing (w # rest)) ?s"
  have s: "?s = st\<lparr>queue := q', batch_task := Sending ?p w rest (w # rest) []\<rparr>"
    using batch_wake_send [OF assms(2,3) Cons] .
  then have b: "batch_task ?s = Sending ?p w rest (clients ?s) []"
    using Cons by simp
  have n: "\<forall>v \<in> set (w # rest). \<forall>a \<in> set (nothing v). forwarding a"
    by (simp add: nothing_def)
  from broadcast_undisturbed [OF b n, of loads dumps fails] s Cons
  have 1: "wire ?r = wire st @ map (\<lambda>v. (v, ?p, \<not> fails v)) (clients st)"
    "batch_task ?r = batch_task st"
    "clients ?r = filter (\<lambda>w. \<not> fails w) (clients st)"
    using assms(1) discard_loop_failed [of fails "clients st"] by simp_all
  from sent_run_fields [of loads dumps fails "w # rest" ?s] s
  have 2: "queue ?r = q'" "sub_task ?r = sub_task st" "inbox ?r = inbox st"
    by simp_all
  have "?r = st\<lparr>queue := q', clients := filter (\<lambda>w. \<not> fails w) (clients st),
        wire := wire st @ map (\<lambda>w. (w, ?p, \<not> fails w)) (clients st)\<rparr>"
    by (rule gateway.equality) (simp_all add: 1 2)
  then show ?thesis
    using Cons by (simp add: batch_tick_def)
qed

text \<open>Once \<open>batch_task\<close> has ended, nothing is sent any more.\<close>

lemma dead_step:
  "batch_task st = Dead e \<Longrightarrow>
   batch_task (step loads dumps a st) = Dead e \<and> wire (step loads dumps a st) = wire st"
  by (cases a)
     (simp_all add: step_def sub_step_def put_def batch_sent_idle live_accept_def
        live_disconnect_def split: sub_state.splits list.splits chan_event.splits option.splits)

lemma dead_run:
  "batch_task st = Dead e \<Longrightarrow>
   batch_task (run loads dumps sched st) = Dead e \<and> wire (run loads dumps sched st) = wire st"
proof (induction sched arbitrary: st)
  case Nil
  then show ?case by simp
next
  case (Cons a sched)
  from dead_step [OF Cons.prems, of loads dumps a] Cons.IH [of "step loads dumps a st"]
  show ?case by simp
qed

subsection \<open>Deserialization in the batching tick\<close>

text \<open>
  Claim C1, as the code has it, for an iteration of \<open>batch_task\<close> during which no
  other task runs. When every payload in the queue deserializes, the iteration empties
  the queue and, unless there is no record or no client, sends every client one frame
  whose items are exactly the records of the payloads, in arrival order. A payload
  that does not deserialize is neither skipped nor counted: the exception leaves the
  iteration (only \<open>QueueEmpty\<close> is caught), \<open>batch_task\<close> ends with it, nothing is
  sent, the payloads up to the malformed one are gone from the queue and the later
  ones stay in it.
\<close>
theorem batch_tick_decode:
  assumes "batch_task st = Running"
    and "map (json_loads loads) good = map Inr js"
    and "json_loads loads x = Inl e"
  shows "batch_tick loads dumps fails (st\<lparr>queue := good\<rparr>) =
           (if js = [] \<or> clients st = [] then st\<lparr>queue := []\<rparr>
            else st\<lparr>queue := [], clients := filter (\<lambda>w. \<not> fails w) (clients st),
                   wire := wire st @
                     map (\<lambda>w. (w, dumps (JObj [(''type'', JStr ''tls''), (''items'', JArr js)]), \<not> fails w))
                       (clients st)\<rparr>)
       \<and> batch_tick loads dumps fails (st\<lparr>queue := good @ x # rest\<rparr>) =
           st\<lparr>queue := rest, batch_task := Dead e\<rparr>"
proof
  have r: "batch_task (st\<lparr>queue := good\<rparr>) = Running"
    using assms(1) by simp
  have ok: "drain_loop loads (queue (st\<lparr>queue := good\<rparr>)) [] = (QueueEmpty, js, [])"
    using drain_loop_all_decode [OF assms(2), of "[]"] by simp
  show "batch_tick loads dumps fails (st\<lparr>queue := good\<rparr>) =
           (if js = [] \<or> clients st = [] then st\<lparr>queue := []\<rparr>
            else st\<lparr>queue := [], clients := filter (\<lambda>w. \<not> fails w) (clients st),
                   wire := wire st @
                     map (\<lambda>w. (w, dumps (JObj [(''type'', JStr ''tls''), (''items'', JArr js)]), \<not> fails w))
                       (clients st)\<rparr>)"
  proof (cases "js = [] \<or> clients st = []")
    case True
    then have "js = [] \<or> clients (st\<lparr>queue := good\<rparr>) = []" by simp
    from batch_tick_skip [OF r ok this] True show ?thesis by simp
  next
    case False
    then have "js \<noteq> []" by simp
    from batch_tick_send [OF r ok this] False show ?thesis by simp
  qed
next
  have e: "e \<noteq> QueueEmpty"
    using assms(3) json_loads_not_QueueEmpty [of loads x] by auto
  have "drain_loop loads (queue (st\<lparr>queue := good @ x # rest\<rparr>)) [] = (e, js, rest)"
    using drain_loop_first_failure [OF assms(2,3), of rest "[]"] by simp
  from batch_tick_raise [OF this e]
  show "batch_tick loads dumps fails (st\<lparr>queue := good @ x # rest\<rparr>) =
           st\<lparr>queue := rest, batch_task := Dead e\<rparr>"
    by simp
qed

text \<open>The scenario: two valid payloads, and the same two followed by \<open>not json\<close>.\<close>
theorem batch_tick_decode_witness:
  "batch_task two_clients = Running
   \<and> map (json_loads scenario_loads) [PStr ev_a_text, PStr ev_b_text] = map Inr [ev_a, ev_b]
   \<and> json_loads scenario_loads (PStr not_json) = Inl JSONDecodeError
   \<and> batch_tick scenario_loads scenario_dumps no_failure
       (two_clients\<lparr>queue := [PStr ev_a_text, PStr ev_b_text]\<rparr>) =
       two_clients\<lparr>queue := [], wire := [(1, frame_ab_text, True), (2, frame_ab_text, True)]\<rparr>
   \<and> batch_tick scenario_loads scenario_dumps no_failure
       (two_clients\<lparr>queue := [PStr ev_a_text, PStr ev_b_text, PStr not_json]\<rparr>) =
       two_clients\<lparr>queue := [], batch_task := Dead JSONDecodeError\<rparr>"
proof -
  have h0: "batch_task two_clients = Running"
    by (simp add: two_clients_def startup_def)
  have h1: "map (json_loads scenario_loads) [PStr ev_a_text, PStr ev_b_text] = map Inr [ev_a, ev_b]"
    by (simp add: scenario_loads_a scenario_loads_b)
  have h2: "json_loads scenario_loads (PStr not_json) = Inl JSONDecodeError"
    by (rule scenario_loads_not_json)
  from batch_tick_decode [OF h0 h1 h2, of scenario_dumps no_failure "[]"] h0 h1 h2
  show ?thesis
    by (simp add: two_clients_def startup_def no_failure_def scenario_dumps_ab)
qed

text \<open>
  The claim as the specification states it fails: with \<open>not json\<close> between two valid
  payloads and two clients connected, the tick ends \<open>batch_task\<close> with the decode
  error, sends nothing, and leaves the payload behind the malformed one in the queue.
\<close>
theorem malformed_payload_counterexample:
  "batch_task (batch_tick scenario_loads scenario_dumps no_failure
      (two_clients\<lparr>queue := [PStr ev_a_text, PStr not_json, PStr ev_b_text]\<rparr>)) = Dead JSONDecodeError
   \<and> wire (batch_tick scenario_loads scenario_dumps no_failure
      (two_clients\<lparr>queue := [PStr ev_a_text, PStr not_json, PStr ev_b_text]\<rparr>)) = []
   \<and> queue (batch_tick scenario_loads scenario_dumps no_failure
      (two_clients\<lparr>queue := [PStr ev_a_text, PStr not_json, PStr ev_b_text]\<rparr>)) = [PStr ev_b_text]"
proof -
  have "drain_loop scenario_loads
      (queue (two_clients\<lparr>queue := [PStr ev_a_text, PStr not_json, PStr ev_b_text]\<rparr>)) [] =
      (JSONDecodeError, [ev_a], [PStr ev_b_text])"
    by (simp add: drain_loop_Cons scenario_loads_a scenario_loads_not_json)
  from batch_tick_raise [OF this, of scenario_dumps no_failure] show ?thesis
    by (simp add: two_clients_def startup_def)
qed

subsection \<open>Draining the queue\<close>

text \<open>
  Claim C4, as the code has it. For every queue whose payloads all deserialize, the
  drain loop removes every queued item and returns their records in arrival order,
  leaving the queue empty (no records when nothing is queued); a second drain right
  after the first returns no record and leaves the queue empty.
\<close>
theorem drain_loop_twice:
  assumes "map (json_loads loads) q = map Inr js"
  shows "drain_loop loads q [] = (QueueEmpty, js, [])
       \<and> drain_loop loads (snd (snd (drain_loop loads q []))) [] = (QueueEmpty, [], [])"
  using drain_loop_all_decode [OF assms, of "[]"] by (simp add: drain_loop_Nil)

theorem drain_loop_twice_witness:
  "map (json_loads scenario_loads) [PStr ev_a_text, PStr ev_b_text] = map Inr [ev_a, ev_b]
   \<and> drain_loop scenario_loads [PStr ev_a_text, PStr ev_b_text] [] = (QueueEmpty, [ev_a, ev_b], [])
   \<and> drain_loop scenario_loads
        (snd (snd (drain_loop scenario_loads [PStr ev_a_text, PStr ev_b_text] []))) [] =
        (QueueEmpty, [], [])"
proof -
  have h: "map (json_loads scenario_loads) [PStr ev_a_text, PStr ev_b_text] = map Inr [ev_a, ev_b]"
    by (simp add: scenario_loads_a scenario_loads_b)
  from drain_loop_twice [OF h] h show ?thesis by (simp add: drain_loop_Nil)
qed

text \<open>
  For every queue state the claim fails: the drain of a queue that starts with
  \<open>not json\<close> returns nothing and leaves the second payload queued, and the drain
  after it returns that payload's record, not the empty sequence.
\<close>
theorem drain_loop_twice_counterexample:
  "drain_loop scenario_loads [PStr not_json, PStr ev_a_text] [] =
     (JSONDecodeError, [], [PStr ev_a_text])
   \<and> drain_loop scenario_loads
        (snd (snd (drain_loop scenario_loads [PStr not_json, PStr ev_a_text] []))) [] =
        (QueueEmpty, [ev_a], [])"
  by (simp add: drain_loop_Cons drain_loop_Nil scenario_loads_a scenario_loads_not_json)

subsection \<open>A client that disconnects during a broadcast\<close>

text \<open>
  Claim C3: a transmission error on one handle is isolated, does not interrupt the
  transmission to the remaining handles and is not fatal, and the failed handles are
  removed after the iteration. The code keeps to it as long as no other task changes
  \<open>clients\<close> during the broadcast (\<open>broadcast_undisturbed\<close>), and breaks it when a
  client disconnects while the broadcast is in progress. Three clients are registered
  and one record is queued; while the send to handle 1 is awaited, client 1 disconnects:
  its handler discards it and the send raises. The exception of the send is caught,
  but the \<open>for\<close> then finds the set changed in size and raises \<open>RuntimeError\<close> outside
  the \<open>try\<close>: handles 2 and 3 are never sent to, \<open>batch_task\<close> has ended, and an event
  published later stays in the queue at the next tick.
\<close>
theorem disconnect_during_broadcast:
  "run scenario_loads scenario_dumps [Tick, Closed 1, Sent False []]
     (three_clients\<lparr>queue := [PStr ev_a_text]\<rparr>) =
   three_clients\<lparr>queue := [], clients := [2, 3], batch_task := Dead RuntimeError,
     wire := [(1, frame_a_text, False)]\<rparr>
   \<and> run scenario_loads scenario_dumps
       [Tick, Closed 1, Sent False [], Publish (Message msg_b), SubStep, Tick, Sent True []]
       (three_clients\<lparr>queue := [PStr ev_a_text]\<rparr>) =
     three_clients\<lparr>queue := [PStr ev_b_text], clients := [2, 3], batch_task := Dead RuntimeError,
       wire := [(1, frame_a_text, False)]\<rparr>"
  by (simp add: step_def batch_wake_def batch_sent_def next_send_def drain_loop_Cons drain_loop_Nil
      scenario_loads_a scenario_dumps_a live_disconnect_def discard_def sub_step_def put_def
      full_def maxsize_def msg_b_def three_clients_def startup_def)

subsection \<open>Ticks without transmission\<close>

text \<open>
  Claim C6, as the code has it. In a tick in which every drained payload deserializes
  and either there is no record or the registry is empty, the state changes in the
  queue only (it is empty): no \<open>send_text\<close> is awaited or logged, no exception is
  raised, \<open>batch_task\<close> sleeps again, and the next tick runs the loop body again. With
  an empty registry no tick starts a \<open>send_text\<close>, however its drain ends.
\<close>
theorem tick_skips_transmission:
  assumes "batch_task st = Running"
    and "map (json_loads loads) (queue st) = map Inr js"
    and "js = [] \<or> clients st = []"
  shows "step loads dumps Tick st = st\<lparr>queue := []\<rparr>
       \<and> wire (step loads dumps Tick st) = wire st
       \<and> batch_task (step loads dumps Tick st) = Running
       \<and> step loads dumps Tick (step loads dumps Tick st) = batch_wake loads dumps (st\<lparr>queue := []\<rparr>)
       \<and> (clients st' = [] \<and> \<not> sending st' \<longrightarrow>
            \<not> sending (step loads dumps Tick st') \<and> wire (step loads dumps Tick st') = wire st')"
proof -
  have d: "drain_loop loads (queue st) [] = (QueueEmpty, js, [])"
    using drain_loop_all_decode [OF assms(2), of "[]"] by simp
  from batch_wake_skip [OF d assms(3), of dumps] assms(1)
  have 1: "step loads dumps Tick st = st\<lparr>queue := []\<rparr>"
    by (simp add: step_def)
  have 2: "clients st' = [] \<and> \<not> sending st' \<longrightarrow>
            \<not> sending (step loads dumps Tick st') \<and> wire (step loads dumps Tick st') = wire st'"
    by (auto simp: step_def sending_def batch_wake_def split: task_state.splits prod.splits)
  from 1 2 assms(1) show ?thesis
    by (simp add: step_def)
qed

theorem tick_skips_transmission_witness:
  "batch_task (startup\<lparr>queue := [PStr ev_a_text]\<rparr>) = Running
   \<and> map (json_loads scenario_loads) (queue (startup\<lparr>queue := [PStr ev_a_text]\<rparr>)) = map Inr [ev_a]
   \<and> ([ev_a] = [] \<or> clients (startup\<lparr>queue := [PStr ev_a_text]\<rparr>) = [])
   \<and> step scenario_loads scenario_dumps Tick (startup\<lparr>queue := [PStr ev_a_text]\<rparr>) = startup
   \<and> step scenario_loads scenario_dumps Tick
       (step scenario_loads scenario_dumps Tick (startup\<lparr>queue := [PStr ev_a_text]\<rparr>)) = startup
   \<and> clients (startup\<lparr>queue := [PStr not_json]\<rparr>) = []
   \<and> \<not> sending (startup\<lparr>queue := [PStr not_json]\<rparr>)
   \<and> \<not> sending (step scenario_loads scenario_dumps Tick (startup\<lparr>queue := [PStr not_json]\<rparr>))
   \<and> wire (step scenario_loads scenario_dumps Tick (startup\<lparr>queue := [PStr not_json]\<rparr>)) = []"
proof -
  have r: "batch_task (startup\<lparr>queue := [PStr ev_a_text]\<rparr>) = Running"
    by (simp add: startup_def)
  have d: "map (json_loads scenario_loads) (queue (startup\<lparr>queue := [PStr ev_a_text]\<rparr>)) = map Inr [ev_a]"
    by (simp add: scenario_loads_a)
  have c: "[ev_a] = [] \<or> clients (startup\<lparr>queue := [PStr ev_a_text]\<rparr>) = []"
    by (simp add: startup_def)
  have e: "batch_wake scenario_loads scenario_dumps startup = startup"
    by (simp add: batch_wake_def drain_loop_Nil startup_def)
  have n: "clients (startup\<lparr>queue := [PStr not_json]\<rparr>) = []"
    "\<not> sending (startup\<lparr>queue := [PStr not_json]\<rparr>)"
    by (simp_all add: startup_def sending_def)
  from tick_skips_transmission [OF r d c, of scenario_dumps
      "startup\<lparr>queue := [PStr not_json]\<rparr>"] r d c e n
  show ?thesis
    by (simp add: startup_def step_def)
qed

text \<open>
  The claim as the specification states it fails: with an empty registry and \<open>not json\<close>
  in the queue, the tick raises the decode error and ends \<open>batch_task\<close>; at the next
  interval nothing ticks: the event published meanwhile stays in the queue and the
  client that has connected receives nothing.
\<close>
theorem empty_registry_counterexample:
  "clients (startup\<lparr>queue := [PStr not_json]\<rparr>) = []
   \<and> step scenario_loads scenario_dumps Tick (startup\<lparr>queue := [PStr not_json]\<rparr>) =
       startup\<lparr>batch_task := Dead JSONDecodeError\<rparr>
   \<and> run scenario_loads scenario_dumps
        [Tick, Accept 1, Publish (Message msg_a), SubStep, Tick]
        (startup\<lparr>queue := [PStr not_json]\<rparr>) =
       startup\<lparr>queue := [PStr ev_a_text], clients := [1], batch_task := Dead JSONDecodeError\<rparr>"
  by (simp add: step_def batch_wake_def drain_loop_Cons drain_loop_Nil scenario_loads_not_json
      sub_step_def put_def full_def maxsize_def live_accept_def add_def msg_a_def startup_def)

subsection \<open>Two events in one interval\<close>

lemma filter_handle:
  "distinct cs \<Longrightarrow> w \<in> set cs \<Longrightarrow>
   filter (\<lambda>s. fst s = w) (map (\<lambda>v. (v, f v)) cs) = [(w, f w)]"
proof (induction cs)
  case Nil
  then show ?case by simp
next
  case (Cons c cs)
  show ?case
  proof (cases "c = w")
    case True
    with Cons.prems have "w \<notin> set cs" by simp
    then have "filter (\<lambda>s. fst s = w) (map (\<lambda>v. (v, f v)) cs) = []"
      by (induction cs) auto
    with True show ?thesis by simp
  next
    case False
    with Cons show ?thesis by simp
  qed
qed

lemma sub_step_forward:
  assumes "sub_task st = Listening" and "inbox st = Message m # rest"
    and "map_of m ''type'' = Some (PStr ''message'')" and "map_of m ''data'' = Some d"
  shows "sub_step st =
     (if full (queue st) then st\<lparr>inbox := rest, sub_task := Putting d\<rparr>
      else st\<lparr>queue := queue st @ [d], inbox := rest\<rparr>)"
  using assms by (simp add: sub_step_def put_def)

lemma map_filter_append:
  "List.map_filter f (xs @ ys) = List.map_filter f xs @ List.map_filter f ys"
  by (simp add: List.map_filter_def)

lemma published_append: "published (a # as) = published [a] @ published as"
  by (cases a) simp_all

text \<open>
  Between two ticks no payload is lost or reordered on its way: what is pending grows
  by the payloads of the events published.
\<close>

lemma pending_sub_step: "pending (sub_step st) = pending st"
  by (auto simp: pending_def sub_step_def put_def payload_of_def
      split: sub_state.splits list.splits chan_event.splits option.splits)

lemma pending_step:
  assumes "a \<noteq> Tick" and "batch_task st = Running"
  shows "pending (step loads dumps a st) = pending st @ List.map_filter payload_of (published [a])
       \<and> batch_task (step loads dumps a st) = Running
       \<and> wire (step loads dumps a st) = wire st"
proof (cases a)
  case (Publish ev)
  with assms(2) show ?thesis
    by (simp add: step_def pending_def map_filter_append)
next
  case SubStep
  have "batch_task (sub_step st) = batch_task st" "wire (sub_step st) = wire st"
    by (simp_all add: sub_step_def put_def
        split: sub_state.splits list.splits chan_event.splits option.splits)
  with SubStep assms(2) show ?thesis
    by (simp add: step_def pending_sub_step)
next
  case Tick
  with assms(1) show ?thesis by simp
next
  case (Sent ok layout)
  with assms(2) show ?thesis by (simp add: step_def batch_sent_idle)
next
  case (Accept w)
  with assms(2) show ?thesis by (simp add: step_def live_accept_def pending_def)
next
  case (Closed w)
  with assms(2) show ?thesis by (simp add: step_def live_disconnect_def pending_def)
qed

lemma pending_run:
  assumes "Tick \<notin> set pre" and "batch_task st = Running"
  shows "pending (run loads dumps pre st) = pending st @ List.map_filter payload_of (published pre)
       \<and> batch_task (run loads dumps pre st) = Running
       \<and> wire (run loads dumps pre st) = wire st"
  using assms
proof (induction pre arbitrary: st)
  case Nil
  then show ?case by simp
next
  case (Cons a pre)
  from Cons.prems have a: "a \<noteq> Tick" and p: "Tick \<notin> set pre" by auto
  from pending_step [OF a Cons.prems(2), of loads dumps]
  have s: "pending (step loads dumps a st) = pending st @ List.map_filter payload_of (published [a])"
    "batch_task (step loads dumps a st) = Running" "wire (step loads dumps a st) = wire st"
    by simp_all
  from Cons.IH [OF p s(2)] s(1,3) published_append [of a pre] show ?case
    by (simp add: map_filter_append)
qed

text \<open>
  Claim C7, as the code has it. Between two ticks, in any order of the steps of the
  other tasks, two messages of type \<open>message\<close> whose payloads \<open>p1\<close>, \<open>p2\<close> deserialize
  to \<open>e1\<close>, \<open>e2\<close> are published and forwarded, the queue being empty before; at the tick
  the registry holds the handles \<open>cs\<close>, at least one, and during the broadcast no other
  task changes the registry (\<open>sub_task\<close> may run). Then \<open>send_text\<close> is called exactly
  once on every handle of \<open>cs\<close>, with the frame
  \<open>json.dumps({"type": "tls", "items": [e1, e2]})\<close>: a client whose send returns
  receives exactly this one frame, a client whose send raises receives none.
\<close>
theorem two_events_one_frame:
  assumes "queue st = []" and "inbox st = []" and "sub_task st = Listening"
    and "batch_task st = Running"
    and "Tick \<notin> set pre" and "published pre = [Message m1, Message m2]"
    and "map_of m1 ''type'' = Some (PStr ''message'')" and "map_of m1 ''data'' = Some (PStr p1)"
    and "map_of m2 ''type'' = Some (PStr ''message'')" and "map_of m2 ''data'' = Some (PStr p2)"
    and "loads p1 = Some e1" and "loads p2 = Some e2"
    and "inbox (run loads dumps pre st) = []" and "sub_task (run loads dumps pre st) = Listening"
    and "clients (run loads dumps pre st) = cs" and "cs \<noteq> []" and "distinct cs"
    and "\<forall>w \<in> set cs. \<forall>a \<in> set (during w). forwarding a"
  shows "wire (run loads dumps (pre @ Tick # sends fails during cs) st) =
           wire st @
             map (\<lambda>w. (w, dumps (JObj [(''type'', JStr ''tls''), (''items'', JArr [e1, e2])]), \<not> fails w))
               cs
       \<and> (\<forall>w \<in> set cs.
            filter (\<lambda>s. fst s = w)
              (drop (length (wire st))
                 (wire (run loads dumps (pre @ Tick # sends fails during cs) st))) =
            [(w, dumps (JObj [(''type'', JStr ''tls''), (''items'', JArr [e1, e2])]), \<not> fails w)])"
proof -
  let ?p = "dumps (JObj [(''type'', JStr ''tls''), (''items'', JArr [e1, e2])])"
  let ?s = "run loads dumps pre st"
  from pending_run [OF assms(5,4), of loads dumps] assms(1,2,3,6,7,8,9,10)
  have p: "pending ?s = [PStr p1, PStr p2]" and r: "batch_task ?s = Running"
    and w: "wire ?s = wire st"
    by (simp_all add: pending_def payload_of_def)
  from p assms(13,14) have q: "queue ?s = [PStr p1, PStr p2]"
    by (simp add: pending_def)
  have d: "drain_loop loads (queue ?s) [] = (QueueEmpty, [e1, e2], [])"
    using assms(11,12) q by (simp add: drain_loop_Cons drain_loop_Nil json_loads_def)
  from assms(15,16) obtain c rest where cs: "cs = c # rest" "clients ?s = c # rest"
    by (cases cs) auto
  let ?t = "step loads dumps Tick ?s"
  have t: "?t = ?s\<lparr>queue := [], batch_task := Sending ?p c rest (c # rest) []\<rparr>"
    using batch_wake_send [OF d _ cs(2), of dumps] r by (simp add: step_def)
  then have b: "batch_task ?t = Sending ?p c rest (clients ?t) []"
    using cs(2) by simp
  have f: "\<forall>v \<in> set (c # rest). \<forall>a \<in> set (during v). forwarding a"
    using assms(18) cs(1) by simp
  have e: "run loads dumps (pre @ Tick # sends fails during cs) st =
      run loads dumps (sends fails during (c # rest)) ?t"
    by (simp add: run_append cs(1))
  have 1: "wire (run loads dumps (pre @ Tick # sends fails during cs) st) =
           wire st @ map (\<lambda>w. (w, ?p, \<not> fails w)) cs"
    unfolding e using broadcast_undisturbed [OF b f, of loads dumps fails] t w cs(1) by simp
  show ?thesis
    unfolding 1
    using filter_handle [OF assms(17), of _ "\<lambda>w. (?p, \<not> fails w)"]
    by simp
qed

text \<open>
  Both events are published before the first is forwarded, a third client connects in
  between, \<open>sub_task\<close> forwards another event during the first send, and the send to
  handle 2 raises.
\<close>
theorem two_events_one_frame_witness:
  "queue two_clients = [] \<and> inbox two_clients = [] \<and> sub_task two_clients = Listening
   \<and> batch_task two_clients = Running
   \<and> Tick \<notin> set [Publish (Message msg_a), Publish (Message msg_b), SubStep, Accept 3, SubStep]
   \<and> published [Publish (Message msg_a), Publish (Message msg_b), SubStep, Accept 3, SubStep] =
       [Message msg_a, Message msg_b]
   \<and> map_of msg_a ''type'' = Some (PStr ''message'') \<and> map_of msg_a ''data'' = Some (PStr ev_a_text)
   \<and> map_of msg_b ''type'' = Some (PStr ''message'') \<and> map_of msg_b ''data'' = Some (PStr ev_b_text)
   \<and> scenario_loads ev_a_text = Some ev_a \<and> scenario_loads ev_b_text = Some ev_b
   \<and> run scenario_loads scenario_dumps
        [Publish (Message msg_a), Publish (Message msg_b), SubStep, Accept 3, SubStep] two_clients =
       two_clients\<lparr>queue := [PStr ev_a_text, PStr ev_b_text], clients := [1, 2, 3]\<rparr>
   \<and> forward_during_first 1 = [Publish (Message msg_b), SubStep]
   \<and> forward_during_first 2 = [] \<and> forward_during_first 3 = []
   \<and> wire (run scenario_loads scenario_dumps
        ([Publish (Message msg_a), Publish (Message msg_b), SubStep, Accept 3, SubStep]
           @ Tick # sends second_fails forward_during_first [1, 2, 3])
        two_clients) =
       [(1, frame_ab_text, True), (2, frame_ab_text, False), (3, frame_ab_text, True)]"
proof -
  let ?pre = "[Publish (Message msg_a), Publish (Message msg_b), SubStep, Accept 3, SubStep]"
  have s: "queue two_clients = []" "inbox two_clients = []" "sub_task two_clients = Listening"
    "batch_task two_clients = Running"
    by (simp_all add: two_clients_def startup_def)
  have t: "Tick \<notin> set ?pre" "published ?pre = [Message msg_a, Message msg_b]"
    by simp_all
  have m: "map_of msg_a ''type'' = Some (PStr ''message'')"
    "map_of msg_a ''data'' = Some (PStr ev_a_text)"
    "map_of msg_b ''type'' = Some (PStr ''message'')"
    "map_of msg_b ''data'' = Some (PStr ev_b_text)"
    by (simp_all add: msg_a_def msg_b_def)
  have l: "scenario_loads ev_a_text = Some ev_a" "scenario_loads ev_b_text = Some ev_b"
    by (simp_all add: scenario_loads_def ev_a_text_def ev_b_text_def)
  have r: "run scenario_loads scenario_dumps ?pre two_clients =
       two_clients\<lparr>queue := [PStr ev_a_text, PStr ev_b_text], clients := [1, 2, 3]\<rparr>"
    by (simp add: step_def sub_step_def put_def full_def maxsize_def live_accept_def add_def
        msg_a_def msg_b_def two_clients_def startup_def)
  have c: "inbox (run scenario_loads scenario_dumps ?pre two_clients) = []"
    "sub_task (run scenario_loads scenario_dumps ?pre two_clients) = Listening"
    "clients (run scenario_loads scenario_dumps ?pre two_clients) = [1, 2, 3]"
    "[1, 2, 3 :: ws] \<noteq> []" "distinct [1, 2, 3 :: ws]"
    unfolding r by (simp_all add: two_clients_def startup_def)
  have d: "forward_during_first 1 = [Publish (Message msg_b), SubStep]"
    "forward_during_first 2 = []" "forward_during_first 3 = []"
    by (simp_all add: forward_during_first_def)
  have f: "\<forall>w \<in> set [1, 2, 3]. \<forall>a \<in> set (forward_during_first w). forwarding a"
    by (simp add: forward_during_first_def)
  have w: "wire two_clients = []"
    by (simp add: two_clients_def startup_def)
  from two_events_one_frame [OF s t m l c f, of second_fails]
  have "wire (run scenario_loads scenario_dumps
        (?pre @ Tick # sends second_fails forward_during_first [1, 2, 3]) two_clients) =
       [(1, frame_ab_text, True), (2, frame_ab_text, False), (3, frame_ab_text, True)]"
    by (simp add: w second_fails_def scenario_dumps_ab)
  with s t m l r d show ?thesis by simp
qed

text \<open>
  The claim as the specification states it fails: handle 2 is registered at the tick,
  its send raises, and client 2 receives no frame.
\<close>
theorem failed_send_counterexample:
  "clients two_clients = [1, 2]
   \<and> wire (run scenario_loads scenario_dumps
        [Publish (Message msg_a), SubStep, Publish (Message msg_b), SubStep, Tick,
         Sent True [], Sent False []]
        two_clients) =
       [(1, frame_ab_text, True), (2, frame_ab_text, False)]"
  by (simp add: step_def sub_step_def put_def full_def maxsize_def batch_wake_def batch_sent_def
      next_send_def drain_loop_Cons drain_loop_Nil scenario_loads_a scenario_loads_b
      scenario_dumps_ab msg_a_def msg_b_def two_clients_def startup_def)

subsection \<open>Enqueue at capacity\<close>

lemma sub_step_resume:
  "sub_task st = Putting d \<Longrightarrow>
   sub_step st = (if full (queue st) then st else st\<lparr>queue := queue st @ [d], sub_task := Listening\<rparr>)"
  by (simp add: sub_step_def put_def)

lemma at_capacity_full: "full (queue at_capacity)"
  by (simp add: at_capacity_def full_def maxsize_def)

lemma not_full_Nil: "\<not> full []"
  by (simp add: full_def maxsize_def)

text \<open>
  Claim C2, as the code has it. The enqueue is \<open>await queue.put(...)\<close>: a payload
  offered while the queue holds fewer than 1000 items is appended at once; offered to
  a queue at capacity it is not dropped and nothing is raised, but \<open>sub_task\<close> is
  suspended holding it, the queue unchanged, and on a later resumption the payload is
  appended if the queue has room and the task suspended again if it has not.
\<close>
theorem put_suspends_when_full:
  assumes "sub_task st = Listening" and "inbox st = Message m # rest"
    and "map_of m ''type'' = Some (PStr ''message'')" and "map_of m ''data'' = Some d"
  shows "sub_step st =
           (if full (queue st) then st\<lparr>inbox := rest, sub_task := Putting d\<rparr>
            else st\<lparr>queue := queue st @ [d], inbox := rest\<rparr>)
       \<and> sub_step (st\<lparr>queue := q, inbox := rest, sub_task := Putting d\<rparr>) =
           (if full q then st\<lparr>queue := q, inbox := rest, sub_task := Putting d\<rparr>
            else st\<lparr>queue := q @ [d], inbox := rest, sub_task := Listening\<rparr>)"
  using sub_step_forward [OF assms]
    sub_step_resume [of "st\<lparr>queue := q, inbox := rest, sub_task := Putting d\<rparr>" d]
  by simp

theorem put_suspends_when_full_witness:
  "sub_task at_capacity = Listening \<and> inbox at_capacity = Message msg_b # []
   \<and> map_of msg_b ''type'' = Some (PStr ''message'')
   \<and> map_of msg_b ''data'' = Some (PStr ev_b_text)
   \<and> sub_step at_capacity = at_capacity\<lparr>inbox := [], sub_task := Putting (PStr ev_b_text)\<rparr>
   \<and> sub_step (at_capacity\<lparr>queue := [], inbox := [], sub_task := Putting (PStr ev_b_text)\<rparr>) =
       at_capacity\<lparr>queue := [PStr ev_b_text], inbox := [], sub_task := Listening\<rparr>"
proof -
  have s: "sub_task at_capacity = Listening" "inbox at_capacity = Message msg_b # []"
    by (simp_all add: at_capacity_def startup_def)
  have m: "map_of msg_b ''type'' = Some (PStr ''message'')"
    "map_of msg_b ''data'' = Some (PStr ev_b_text)"
    by (simp_all add: msg_b_def)
  from put_suspends_when_full [OF s m, of "[]"] s m at_capacity_full
  show ?thesis by (simp add: not_full_Nil)
qed

lemma at_capacity_drain:
  "drain_loop scenario_loads (replicate 1000 (PStr ev_a_text)) [] =
     (QueueEmpty, replicate 1000 ev_a, [])"
proof -
  have "map (json_loads scenario_loads) (replicate 1000 (PStr ev_a_text)) =
      map Inr (replicate 1000 ev_a)"
    by (simp add: scenario_loads_a)
  from drain_loop_all_decode [OF this, of "[]"] show ?thesis by simp
qed

text \<open>
  The claim as the specification states it fails: offered a payload at capacity,
  \<open>sub_task\<close> blocks in \<open>put\<close> with the queue unchanged, and the payload is not
  dropped: after the next tick has drained the queue, the resumed \<open>put\<close> appends it.
\<close>
theorem enqueue_at_capacity_counterexample:
  "sub_task (sub_step at_capacity) = Putting (PStr ev_b_text)
   \<and> queue (sub_step at_capacity) = queue at_capacity
   \<and> queue (run scenario_loads scenario_dumps [SubStep, Tick, SubStep] at_capacity) =
       [PStr ev_b_text]"
proof -
  have 1: "sub_step at_capacity = at_capacity\<lparr>inbox := [], sub_task := Putting (PStr ev_b_text)\<rparr>"
    using at_capacity_full
    by (simp add: sub_step_def put_def at_capacity_def startup_def msg_b_def)
  have 2: "batch_wake scenario_loads scenario_dumps
      (at_capacity\<lparr>inbox := [], sub_task := Putting (PStr ev_b_text)\<rparr>) =
      at_capacity\<lparr>queue := [], inbox := [], sub_task := Putting (PStr ev_b_text)\<rparr>"
    using at_capacity_drain
    by (simp add: batch_wake_def at_capacity_def startup_def)
  have 3: "sub_step (at_capacity\<lparr>queue := [], inbox := [], sub_task := Putting (PStr ev_b_text)\<rparr>) =
      at_capacity\<lparr>queue := [PStr ev_b_text], inbox := [], sub_task := Listening\<rparr>"
    by (simp add: sub_step_def put_def not_full_Nil)
  have r: "batch_task (at_capacity\<lparr>inbox := [], sub_task := Putting (PStr ev_b_text)\<rparr>) = Running"
    by (simp add: at_capacity_def startup_def)
  show ?thesis
    by (simp add: step_def 1 2 3 r)
qed

subsection \<open>The bound of the queue\<close>

lemma queue_sub_step_full: "full (queue st) \<Longrightarrow> queue (sub_step st) = queue st"
  by (simp add: sub_step_def put_def split: sub_state.splits list.splits chan_event.splits
      option.splits)

lemma sub_step_bound:
  "length (queue st) \<le> maxsize \<Longrightarrow> length (queue (sub_step st)) \<le> maxsize"
  by (auto simp: sub_step_def put_def full_def split: sub_state.splits list.splits
      chan_event.splits option.splits)

lemma step_queue_suffix_or_sub:
  "queue (step loads dumps a st) = queue (sub_step st) \<and> a = SubStep
   \<or> suffix (queue (step loads dumps a st)) (queue st)"
  by (cases a)
     (simp_all add: step_def live_accept_def live_disconnect_def batch_wake_fields
        batch_sent_fields drain_loop_suffix split: task_state.splits)

lemma step_bound:
  "length (queue st) \<le> maxsize \<Longrightarrow> length (queue (step loads dumps a st)) \<le> maxsize"
  using step_queue_suffix_or_sub [of loads dumps a st] sub_step_bound [of st]
  by (auto dest: suffix_length_le)

lemma run_bound:
  "length (queue st) \<le> maxsize \<Longrightarrow> length (queue (run loads dumps sched st)) \<le> maxsize"
  by (induction sched arbitrary: st) (simp_all add: step_bound)

text \<open>
  Claim C5. The capacity is 1000, and whatever happens, in whatever order (events
  published, resumptions of \<open>sub_task\<close>, ticks, sends ending, clients coming and going),
  a queue within its capacity stays within it. One rule applies when an insertion meets
  a full queue: a resumption of \<open>sub_task\<close> leaves a full queue as it is (no insertion,
  no eviction).
\<close>
theorem queue_within_maxsize:
  assumes "length (queue st) \<le> maxsize"
  shows "maxsize = 1000
       \<and> length (queue (run loads dumps sched st)) \<le> maxsize
       \<and> (full (queue st') \<longrightarrow> queue (sub_step st') = queue st')"
  using run_bound [OF assms] queue_sub_step_full by (simp add: maxsize_def)

theorem queue_within_maxsize_witness:
  "length (queue at_capacity) \<le> maxsize
   \<and> length (queue (run scenario_loads scenario_dumps
        [SubStep, Publish (Message msg_a), SubStep] at_capacity)) \<le> maxsize
   \<and> full (queue at_capacity)
   \<and> queue (sub_step at_capacity) = queue at_capacity"
proof -
  have h: "length (queue at_capacity) \<le> maxsize"
    by (simp add: at_capacity_def maxsize_def)
  from queue_within_maxsize [OF h, of scenario_loads scenario_dumps
      "[SubStep, Publish (Message msg_a), SubStep]" at_capacity] h at_capacity_full
  show ?thesis by simp
qed

subsection \<open>Loss of the channel\<close>

lemma step_sub_dead:
  "sub_task st = SubDead e \<Longrightarrow>
   sub_task (step loads dumps a st) = SubDead e \<and> suffix (queue (step loads dumps a st)) (queue st)"
  by (cases a)
     (simp_all add: step_def sub_step_def live_accept_def live_disconnect_def batch_wake_fields
        batch_sent_fields drain_loop_suffix split: task_state.splits)

lemma run_sub_dead:
  "sub_task st = SubDead e \<Longrightarrow>
   sub_task (run loads dumps sched st) = SubDead e \<and> suffix (queue (run loads dumps sched st)) (queue st)"
proof (induction sched arbitrary: st)
  case Nil
  then show ?case by simp
next
  case (Cons a sched)
  from step_sub_dead [OF Cons.prems, of loads dumps a]
  have s: "sub_task (step loads dumps a st) = SubDead e"
    and q: "suffix (queue (step loads dumps a st)) (queue st)"
    by simp_all
  from Cons.IH [OF s] q show ?case
    by (auto intro: suffix_order.trans)
qed

text \<open>
  Claim C8, as the code has it. When the listener raises the connection error, the
  exception ends \<open>sub_task\<close> and changes nothing else: \<open>batch_task\<close>, the queue and the
  registry are as before, so the process keeps running. There is no reconnection and no
  new subscription: whatever happens afterwards, \<open>sub_task\<close> stays ended and nothing is
  appended to the queue any more.
\<close>
theorem disconnect_ends_sub_task:
  assumes "sub_task st = Listening" and "inbox st = ConnLost # rest"
  shows "sub_step st = st\<lparr>inbox := rest, sub_task := SubDead ConnectionError\<rparr>
       \<and> sub_task (run loads dumps sched (sub_step st)) = SubDead ConnectionError
       \<and> suffix (queue (run loads dumps sched (sub_step st))) (queue st)"
proof -
  have 1: "sub_step st = st\<lparr>inbox := rest, sub_task := SubDead ConnectionError\<rparr>"
    using assms by (simp add: sub_step_def)
  then have "sub_task (sub_step st) = SubDead ConnectionError" by simp
  from run_sub_dead [OF this, of loads dumps sched] 1 show ?thesis by simp
qed

theorem disconnect_ends_sub_task_witness:
  "sub_task (startup\<lparr>inbox := [ConnLost]\<rparr>) = Listening
   \<and> inbox (startup\<lparr>inbox := [ConnLost]\<rparr>) = ConnLost # []
   \<and> sub_step (startup\<lparr>inbox := [ConnLost]\<rparr>) = startup\<lparr>sub_task := SubDead ConnectionError\<rparr>
   \<and> sub_task (run scenario_loads scenario_dumps [Publish (Message msg_a), SubStep]
        (sub_step (startup\<lparr>inbox := [ConnLost]\<rparr>))) = SubDead ConnectionError
   \<and> queue (run scenario_loads scenario_dumps [Publish (Message msg_a), SubStep]
        (sub_step (startup\<lparr>inbox := [ConnLost]\<rparr>))) = []"
proof -
  have h: "sub_task (startup\<lparr>inbox := [ConnLost]\<rparr>) = Listening"
    "inbox (startup\<lparr>inbox := [ConnLost]\<rparr>) = ConnLost # []"
    by (simp_all add: startup_def)
  from disconnect_ends_sub_task [OF h, of scenario_loads scenario_dumps
      "[Publish (Message msg_a), SubStep]"] h
  show ?thesis by (simp add: startup_def step_def sub_step_def)
qed

text \<open>
  The claim as the specification states it fails: an event published after the
  connection was lost stays with the channel and never enters the queue, however
  often \<open>sub_task\<close> is scheduled.
\<close>
theorem no_reconnect_counterexample:
  "run scenario_loads scenario_dumps
     [Publish ConnLost, SubStep, Publish (Message msg_a), SubStep, SubStep] startup =
   startup\<lparr>inbox := [Message msg_a], sub_task := SubDead ConnectionError\<rparr>"
  by (simp add: step_def sub_step_def startup_def)

subsection \<open>Discarded batches\<close>

text \<open>
  Claim C9. A tick with an empty registry whose payloads all deserialize removes every
  payload from the queue and sends nothing, and from that tick on the gateway behaves,
  in every schedule, exactly as the gateway whose queue was empty at that tick: nothing
  that happens later, no later batch, depends on the drained payloads. A tick that meets a payload that does not deserialize removes
  the payloads before it and that payload from the queue and ends \<open>batch_task\<close>: in
  every schedule that follows nothing is sent at all, so none of them is delivered
  later either.
\<close>
theorem drained_events_lost:
  assumes "batch_task st = Running" and "clients st = []"
    and "map (json_loads loads) good = map Inr js"
    and "batch_task st' = Running" and "json_loads loads x = Inl e"
  shows "step loads dumps Tick (st\<lparr>queue := good\<rparr>) = st\<lparr>queue := []\<rparr>
       \<and> run loads dumps (Tick # sched) (st\<lparr>queue := good\<rparr>) =
           run loads dumps (Tick # sched) (st\<lparr>queue := []\<rparr>)
       \<and> step loads dumps Tick (st'\<lparr>queue := good @ x # rest\<rparr>) =
           st'\<lparr>queue := rest, batch_task := Dead e\<rparr>
       \<and> wire (run loads dumps (Tick # sched) (st'\<lparr>queue := good @ x # rest\<rparr>)) = wire st'"
proof -
  have d: "drain_loop loads (queue (st\<lparr>queue := good\<rparr>)) [] = (QueueEmpty, js, [])"
    using drain_loop_all_decode [OF assms(3), of "[]"] by simp
  have "js = [] \<or> clients (st\<lparr>queue := good\<rparr>) = []"
    using assms(2) by simp
  from batch_wake_skip [OF d this, of dumps] assms(1)
  have 1: "step loads dumps Tick (st\<lparr>queue := good\<rparr>) = st\<lparr>queue := []\<rparr>"
    by (simp add: step_def)
  have e: "e \<noteq> QueueEmpty"
    using assms(5) json_loads_not_QueueEmpty [of loads x] by auto
  have "drain_loop loads (queue (st'\<lparr>queue := good @ x # rest\<rparr>)) [] = (e, js, rest)"
    using drain_loop_first_failure [OF assms(3,5), of rest "[]"] by simp
  from batch_wake_raise [OF this e, of dumps] assms(4)
  have 2: "step loads dumps Tick (st'\<lparr>queue := good @ x # rest\<rparr>) =
           st'\<lparr>queue := rest, batch_task := Dead e\<rparr>"
    by (simp add: step_def)
  have "batch_task (st'\<lparr>queue := rest, batch_task := Dead e\<rparr>) = Dead e" by simp
  from dead_run [OF this, of loads dumps sched]
  have 3: "wire (run loads dumps (Tick # sched) (st'\<lparr>queue := good @ x # rest\<rparr>)) = wire st'"
    by (simp add: 2)
  have "drain_loop loads (queue (st\<lparr>queue := []\<rparr>)) [] = (QueueEmpty, [], [])"
    by (simp add: drain_loop_Nil)
  from batch_wake_skip [OF this, of dumps] assms(1)
  have 4: "step loads dumps Tick (st\<lparr>queue := []\<rparr>) = st\<lparr>queue := []\<rparr>"
    by (simp add: step_def)
  from 1 2 3 4 show ?thesis by simp
qed

text \<open>
  Two payloads are drained while no client is connected, and a client that connects
  before the next tick receives nothing; two payloads are drained before \<open>not json\<close>
  with two clients connected, and nothing is sent at this tick or the next.
\<close>
theorem drained_events_lost_witness:
  "batch_task startup = Running \<and> clients startup = []
   \<and> map (json_loads scenario_loads) [PStr ev_a_text, PStr ev_b_text] = map Inr [ev_a, ev_b]
   \<and> batch_task two_clients = Running
   \<and> json_loads scenario_loads (PStr not_json) = Inl JSONDecodeError
   \<and> step scenario_loads scenario_dumps Tick (startup\<lparr>queue := [PStr ev_a_text, PStr ev_b_text]\<rparr>) =
       startup
   \<and> wire (run scenario_loads scenario_dumps [Tick, Accept 1, Tick, Sent True []]
       (startup\<lparr>queue := [PStr ev_a_text, PStr ev_b_text]\<rparr>)) = []
   \<and> step scenario_loads scenario_dumps Tick
       (two_clients\<lparr>queue := [PStr ev_a_text, PStr ev_b_text, PStr not_json, PStr ev_a_text]\<rparr>) =
       two_clients\<lparr>queue := [PStr ev_a_text], batch_task := Dead JSONDecodeError\<rparr>
   \<and> wire (run scenario_loads scenario_dumps [Tick, Tick, Sent True [], Sent True []]
       (two_clients\<lparr>queue := [PStr ev_a_text, PStr ev_b_text, PStr not_json, PStr ev_a_text]\<rparr>)) = []"
proof -
  have h: "batch_task startup = Running" "clients startup = []"
    "map (json_loads scenario_loads) [PStr ev_a_text, PStr ev_b_text] = map Inr [ev_a, ev_b]"
    "batch_task two_clients = Running"
    "json_loads scenario_loads (PStr not_json) = Inl JSONDecodeError"
    by (simp_all add: startup_def two_clients_def scenario_loads_a scenario_loads_b
        scenario_loads_not_json)
  have w: "wire (run scenario_loads scenario_dumps [Accept 1, Tick, Sent True []] startup) = []"
    by (simp add: step_def live_accept_def add_def batch_wake_def batch_sent_def drain_loop_Nil
        startup_def)
  from drained_events_lost [OF h, of scenario_dumps "[Accept 1, Tick, Sent True []]"
      "[PStr ev_a_text]"]
    drained_events_lost [OF h, of scenario_dumps "[Tick, Sent True [], Sent True []]"
      "[PStr ev_a_text]"] h w
  show ?thesis
    by (simp add: startup_def two_clients_def)
qed

subsection \<open>What enters the queue\<close>

lemma set_payloads:
  "set (List.map_filter payload_of evs) = {d. \<exists>ev \<in> set evs. payload_of ev = Some d}"
  by (induction evs) (auto split: option.splits)

lemma published_Cons:
  "set (published (a # as)) = set (published [a]) \<union> set (published as)"
  by (cases a) auto

lemma sub_step_payloads:
  assumes "set (queue st) \<subseteq> P"
    and "\<forall>d. sub_task st = Putting d \<longrightarrow> d \<in> P"
    and "\<forall>ev \<in> set (inbox st). \<forall>d. payload_of ev = Some d \<longrightarrow> d \<in> P"
  shows "set (queue (sub_step st)) \<subseteq> P
       \<and> (\<forall>d. sub_task (sub_step st) = Putting d \<longrightarrow> d \<in> P)
       \<and> (\<forall>ev \<in> set (inbox (sub_step st)). \<forall>d. payload_of ev = Some d \<longrightarrow> d \<in> P)"
proof (cases "sub_task st")
  case Listening
  show ?thesis
  proof (cases "inbox st")
    case Nil
    with Listening assms show ?thesis by (simp add: sub_step_def)
  next
    case (Cons ev rest)
    show ?thesis
    proof (cases ev)
      case ConnLost
      with Listening Cons assms show ?thesis by (simp add: sub_step_def)
    next
      case (Message m)
      show ?thesis
      proof (cases "map_of m ''type'' = Some (PStr ''message'')")
        case False
        with Listening Cons Message assms show ?thesis by (simp add: sub_step_def)
      next
        case True
        show ?thesis
        proof (cases "map_of m ''data''")
          case None
          with True Listening Cons Message assms show ?thesis by (simp add: sub_step_def)
        next
          case (Some d)
          with True Message have "payload_of ev = Some d" by (simp add: payload_of_def)
          with assms(3) Cons have "d \<in> P" by simp
          with Some True Listening Cons Message assms show ?thesis
            by (simp add: sub_step_def put_def)
        qed
      qed
    qed
  qed
next
  case (Putting d)
  with assms show ?thesis by (simp add: sub_step_def put_def)
next
  case (SubDead e)
  with assms show ?thesis by (simp add: sub_step_def)
qed

lemma step_payloads:
  assumes "set (queue st) \<subseteq> P"
    and "\<forall>d. sub_task st = Putting d \<longrightarrow> d \<in> P"
    and "\<forall>ev \<in> set (inbox st). \<forall>d. payload_of ev = Some d \<longrightarrow> d \<in> P"
    and "\<forall>ev \<in> set (published [a]). \<forall>d. payload_of ev = Some d \<longrightarrow> d \<in> P"
  shows "set (queue (step loads dumps a st)) \<subseteq> P
       \<and> (\<forall>d. sub_task (step loads dumps a st) = Putting d \<longrightarrow> d \<in> P)
       \<and> (\<forall>ev \<in> set (inbox (step loads dumps a st)). \<forall>d. payload_of ev = Some d \<longrightarrow> d \<in> P)"
proof (cases a)
  case (Publish ev)
  with assms show ?thesis by (auto simp: step_def)
next
  case SubStep
  with sub_step_payloads [OF assms(1-3)] show ?thesis by (simp add: step_def)
next
  case Tick
  have "set (snd (snd (drain_loop loads (queue st) []))) \<subseteq> set (queue st)"
    using drain_loop_suffix [of loads "queue st" "[]"] by (rule set_mono_suffix)
  with Tick assms(1-3) show ?thesis
    by (auto simp: step_def batch_wake_fields split: task_state.splits)
next
  case (Sent ok layout)
  with assms(1-3) show ?thesis by (simp add: step_def batch_sent_fields)
next
  case (Accept w)
  with assms show ?thesis by (simp add: step_def live_accept_def)
next
  case (Closed w)
  with assms show ?thesis by (simp add: step_def live_disconnect_def)
qed

lemma run_payloads:
  assumes "set (queue st) \<subseteq> P"
    and "\<forall>d. sub_task st = Putting d \<longrightarrow> d \<in> P"
    and "\<forall>ev \<in> set (inbox st). \<forall>d. payload_of ev = Some d \<longrightarrow> d \<in> P"
    and "\<forall>ev \<in> set (published sched). \<forall>d. payload_of ev = Some d \<longrightarrow> d \<in> P"
  shows "set (queue (run loads dumps sched st)) \<subseteq> P"
  using assms
proof (induction sched arbitrary: st)
  case Nil
  then show ?case by simp
next
  case (Cons a sched)
  have a: "\<forall>ev \<in> set (published [a]). \<forall>d. payload_of ev = Some d \<longrightarrow> d \<in> P"
    and r: "\<forall>ev \<in> set (published sched). \<forall>d. payload_of ev = Some d \<longrightarrow> d \<in> P"
    using Cons.prems(4) published_Cons [of a sched] by auto
  from step_payloads [OF Cons.prems(1-3) a, of loads dumps]
  show ?case
    using Cons.IH [of "step loads dumps a st"] r by simp
qed

text \<open>
  Claim C10. A message dict whose \<open>type\<close> is not \<open>message\<close> is consumed by \<open>sub_task\<close>
  without any other effect, and from startup on, in every schedule, every item of the
  queue (hence every item a tick drains) is the \<open>data\<close> of a published message dict of
  type \<open>message\<close>.
\<close>
theorem only_messages_enqueued:
  assumes "sub_task st = Listening" and "inbox st = Message m # rest"
    and "map_of m ''type'' \<noteq> Some (PStr ''message'')"
  shows "sub_step st = st\<lparr>inbox := rest\<rparr>
       \<and> set (queue (run loads dumps sched startup)) \<subseteq>
           set (List.map_filter payload_of (published sched))"
proof
  show "sub_step st = st\<lparr>inbox := rest\<rparr>"
    using assms by (simp add: sub_step_def)
next
  show "set (queue (run loads dumps sched startup)) \<subseteq>
           set (List.map_filter payload_of (published sched))"
    by (rule run_payloads) (auto simp: startup_def set_payloads)
qed

text \<open>The reply to \<open>subscribe\<close> is not enqueued, the event published after it is.\<close>
theorem only_messages_enqueued_witness:
  "sub_task (startup\<lparr>inbox := [Message msg_subscribed]\<rparr>) = Listening
   \<and> inbox (startup\<lparr>inbox := [Message msg_subscribed]\<rparr>) = Message msg_subscribed # []
   \<and> map_of msg_subscribed ''type'' \<noteq> Some (PStr ''message'')
   \<and> sub_step (startup\<lparr>inbox := [Message msg_subscribed]\<rparr>) = startup
   \<and> queue (run scenario_loads scenario_dumps
        [Publish (Message msg_subscribed), SubStep, Publish (Message msg_a), SubStep] startup) =
       [PStr ev_a_text]
   \<and> List.map_filter payload_of
        (published [Publish (Message msg_subscribed), SubStep, Publish (Message msg_a), SubStep]) =
       [PStr ev_a_text]"
proof -
  have h: "sub_task (startup\<lparr>inbox := [Message msg_subscribed]\<rparr>) = Listening"
    "inbox (startup\<lparr>inbox := [Message msg_subscribed]\<rparr>) = Message msg_subscribed # []"
    "map_of msg_subscribed ''type'' \<noteq> Some (PStr ''message'')"
    by (simp_all add: startup_def msg_subscribed_def)
  have q: "queue (run scenario_loads scenario_dumps
        [Publish (Message msg_subscribed), SubStep, Publish (Message msg_a), SubStep] startup) =
       [PStr ev_a_text]"
    by (simp add: step_def sub_step_def put_def not_full_Nil startup_def msg_subscribed_def msg_a_def)
  have p: "List.map_filter payload_of
        (published [Publish (Message msg_subscribed), SubStep, Publish (Message msg_a), SubStep]) =
       [PStr ev_a_text]"
    by (simp add: payload_of_def msg_subscribed_def msg_a_def)
  from only_messages_enqueued [OF h, of scenario_loads scenario_dumps
      "[Publish (Message msg_subscribed), SubStep, Publish (Message msg_a), SubStep]"] h q p
  show ?thesis by (simp add: startup_def)
qed

end
